theory Spec2Isabelle
  imports
    Main
    "HOL-Library.Char_ord"
    "HOL-Library.List_Lexorder"
    "HOL-Library.Product_Lexorder"
begin

section \<open>FastaFlow: validation, cleaning, record processing and statistics\<close>

text \<open>
  The development embeds the four functions of \<^verbatim>\<open>main.py\<close> that carry the logic of the
  pipeline: \<^verbatim>\<open>validate_sequence\<close>, \<^verbatim>\<open>clean_sequence\<close>, \<^verbatim>\<open>calculate_statistics\<close> and the
  validate-and-clean loop of \<^verbatim>\<open>process_fasta\<close>. File access, parsing, writing and printing
  are left out.
\<close>

subsection \<open>Sequences and records\<close>

text \<open>
  A sequence is a Python \<^verbatim>\<open>str\<close>: a list of code points. The model takes the code points
  below 256, one \<^typ>\<open>char\<close> each, so that \<^const>\<open>length\<close> is Python's \<^verbatim>\<open>len\<close>.
  A record of the parser carries an identifier and a sequence.
\<close>

record seq_record =
  rid :: string
  seq :: string

text \<open>
  \<^verbatim>\<open>str.upper\<close> works code point by code point. On ASCII it maps \<^verbatim>\<open>a..z\<close> to \<^verbatim>\<open>A..Z\<close>
  and changes nothing else. The other code points below 256 are left alone here; Python
  maps some of them to other code points, none of which is one of \<^verbatim>\<open>A\<close>, \<^verbatim>\<open>T\<close>, \<^verbatim>\<open>G\<close>,
  \<^verbatim>\<open>C\<close>, and the functions below only ever test an uppercased code point for membership
  in that set.
\<close>

definition upper_char :: "char \<Rightarrow> char" where
  "upper_char c =
     (let n = (of_char c :: nat)
      in if 97 \<le> n \<and> n \<le> 122 then char_of (n - 32) else c)"

definition upper :: "string \<Rightarrow> string" where
  "upper s = map upper_char s"

text \<open>\<^verbatim>\<open>valid_bases = set("ATGC")\<close>\<close>

definition valid_bases :: "char set" where
  "valid_bases = set ''ATGC''"

subsection \<open>The validator\<close>

text \<open>
  \<^verbatim>\<open>
  for base in sequence_upper:
      if base not in valid_bases:
          return False
  return True
  \<close>
\<close>

fun validate_loop :: "string \<Rightarrow> bool" where
  "validate_loop [] = True"
| "validate_loop (base # rest) =
     (if base \<notin> valid_bases then False else validate_loop rest)"

definition validate_sequence :: "string \<Rightarrow> bool" where
  "validate_sequence sequence = validate_loop (upper sequence)"

subsection \<open>The cleaner\<close>

text \<open>
  \<^verbatim>\<open>"".join([base for base in str(sequence).upper() if base in valid_bases])\<close>
\<close>

definition clean_sequence :: "string \<Rightarrow> string" where
  "clean_sequence sequence = filter (\<lambda>base. base \<in> valid_bases) (upper sequence)"

subsection \<open>The record processor\<close>

text \<open>
  The loop of \<^verbatim>\<open>process_fasta\<close> over the parsed records:
  \<^verbatim>\<open>
  valid_records = []
  invalid_count = 0
  for record in records:
      if validate_sequence(record.seq):
          valid_records.append(record)
      else:
          invalid_count += 1
          record.seq = clean_sequence(record.seq)
          if len(record.seq) > 0:
              valid_records.append(record)
  \<close>
  The state of the loop is the pair of \<^verbatim>\<open>valid_records\<close> and \<^verbatim>\<open>invalid_count\<close>. The
  assignment to \<^verbatim>\<open>record.seq\<close> becomes a record update.
\<close>

fun process_step :: "seq_record \<Rightarrow> seq_record list \<times> nat \<Rightarrow> seq_record list \<times> nat" where
  "process_step record (valid_records, invalid_count) =
     (if validate_sequence (seq record) then (valid_records @ [record], invalid_count)
      else
        let invalid_count = invalid_count + 1;
            record = record\<lparr>seq := clean_sequence (seq record)\<rparr>
        in if length (seq record) > 0 then (valid_records @ [record], invalid_count)
           else (valid_records, invalid_count))"


definition process_loop :: "seq_record list \<Rightarrow> seq_record list \<times> nat" where
  "process_loop records = fold process_step records ([], 0)"

text \<open>
  What \<^verbatim>\<open>process_fasta\<close> hands on after the loop: the list \<^verbatim>\<open>valid_records\<close>, which it
  passes to the statistics, writes out and returns, and the two counts it prints,
  \<^verbatim>\<open>len(valid_records)\<close> as the number of valid sequences and \<^verbatim>\<open>invalid_count\<close> as the
  number of sequences with invalid characters. The function keeps no other count. These
  are the accepted records, the valid count and the cleaned count of the specification's
  \<^verbatim>\<open>process\<close>.
\<close>

record process_result =
  valid_records :: "seq_record list"
  valid_reported :: nat
  invalid_count :: nat

definition process_fasta :: "seq_record list \<Rightarrow> process_result" where
  "process_fasta records =
     \<lparr>valid_records = fst (process_loop records),
      valid_reported = length (fst (process_loop records)),
      invalid_count = snd (process_loop records)\<rparr>"

text \<open>
  The outcome of one record in the words of the specification: a valid record is kept as
  it is, an invalid one is kept with its cleaned sequence if that is not empty, and is
  dropped otherwise.
\<close>

definition spec_outcome :: "seq_record \<Rightarrow> seq_record list" where
  "spec_outcome r =
     (if validate_sequence (seq r) then [r]
      else if clean_sequence (seq r) \<noteq> [] then [r\<lparr>seq := clean_sequence (seq r)\<rparr>]
      else [])"

subsection \<open>The statistics\<close>

datatype py_error = ValueError | ZeroDivisionError

text \<open>
  The builtins \<^verbatim>\<open>min\<close> and \<^verbatim>\<open>max\<close> over an iterable raise \<^verbatim>\<open>ValueError\<close> when it is
  empty. Otherwise they start from the first item and replace the current one by a later
  item only when that is strictly smaller (for \<^verbatim>\<open>max\<close>: strictly greater).
\<close>

fun py_min :: "'a::linorder list \<Rightarrow> py_error + 'a" where
  "py_min [] = Inl ValueError"
| "py_min (x # xs) = Inr (fold (\<lambda>item best. if item < best then item else best) xs x)"

fun py_max :: "'a::linorder list \<Rightarrow> py_error + 'a" where
  "py_max [] = Inl ValueError"
| "py_max (x # xs) = Inr (fold (\<lambda>item best. if item > best then item else best) xs x)"

text \<open>
  The average is the int \<^verbatim>\<open>0\<close> for no records and otherwise the float that the true
  division of two ints gives. Floats are not represented: the value keeps the two
  operands of the division. Dividing by zero raises.
\<close>

datatype py_number = PyInt int | PyTrueDiv nat nat

definition py_truediv :: "nat \<Rightarrow> nat \<Rightarrow> py_error + py_number" where
  "py_truediv a b = (if b = 0 then Inl ZeroDivisionError else Inr (PyTrueDiv a b))"

record statistics =
  total_sequences :: nat
  total_bases :: nat
  avg_length :: py_number
  shortest :: "nat \<times> string"
  longest :: "nat \<times> string"

text \<open>
  The pairs \<^verbatim>\<open>(len(r.seq), r.id)\<close> that \<^verbatim>\<open>min\<close> and \<^verbatim>\<open>max\<close> compare. Python orders
  tuples lexicographically and strings lexicographically by code point, which is the
  order of \<^typ>\<open>nat \<times> string\<close> here.
\<close>

definition length_id :: "seq_record \<Rightarrow> nat \<times> string" where
  "length_id r = (length (seq r), rid r)"

text \<open>
  \<^verbatim>\<open>
  stats = {
      "total_sequences": len(records),
      "total_bases": sum(len(r.seq) for r in records),
      "avg_length": sum(len(r.seq) for r in records) / len(records) if records else 0,
      "shortest": min((len(r.seq), r.id) for r in records) if records else (0, ""),
      "longest": max((len(r.seq), r.id) for r in records) if records else (0, ""),
  }
  \<close>
  The entries are evaluated in this order, and the first one that raises ends the call.
\<close>

definition calculate_statistics :: "seq_record list \<Rightarrow> py_error + statistics" where
  "calculate_statistics records =
     (case (if records \<noteq> []
            then py_truediv (sum_list (map (\<lambda>r. length (seq r)) records)) (length records)
            else Inr (PyInt 0)) of
        Inl e \<Rightarrow> Inl e
      | Inr avg \<Rightarrow>
     (case (if records \<noteq> [] then py_min (map length_id records) else Inr (0, '''')) of
        Inl e \<Rightarrow> Inl e
      | Inr lo \<Rightarrow>
     (case (if records \<noteq> [] then py_max (map length_id records) else Inr (0, '''')) of
        Inl e \<Rightarrow> Inl e
      | Inr hi \<Rightarrow>
          Inr \<lparr>total_sequences = length records,
               total_bases = sum_list (map (\<lambda>r. length (seq r)) records),
               avg_length = avg,
               shortest = lo,
               longest = hi\<rparr>)))"

section \<open>Basic facts\<close>

lemma valid_bases_eq: "valid_bases = {CHR ''A'', CHR ''T'', CHR ''G'', CHR ''C''}"
  by (simp add: valid_bases_def)

lemma valid_bases_iff:
  "c \<in> valid_bases \<longleftrightarrow> c = CHR ''A'' \<or> c = CHR ''T'' \<or> c = CHR ''G'' \<or> c = CHR ''C''"
  by (auto simp: valid_bases_def)

lemma upper_char_base: "c \<in> valid_bases \<Longrightarrow> upper_char c = c"
  by (auto simp: valid_bases_iff upper_char_def)

lemma upper_fixes_bases: "set s \<subseteq> valid_bases \<Longrightarrow> upper s = s"
  by (induction s) (simp_all add: upper_def upper_char_base)

lemma validate_loop_iff: "validate_loop s \<longleftrightarrow> set s \<subseteq> valid_bases"
  by (induction s) simp_all

lemma clean_sequence_bases: "set (clean_sequence s) \<subseteq> valid_bases"
  by (auto simp: clean_sequence_def)

lemma validate_sequence_subset: "validate_sequence s \<longleftrightarrow> set (upper s) \<subseteq> valid_bases"
  by (simp add: validate_sequence_def validate_loop_iff)

lemma upper_clean_sequence: "upper (clean_sequence s) = clean_sequence s"
  by (rule upper_fixes_bases) (rule clean_sequence_bases)

lemma validate_clean_sequence: "validate_sequence (clean_sequence s)"
  by (simp add: validate_sequence_subset upper_clean_sequence clean_sequence_bases)

lemma clean_sequence_idem: "clean_sequence (clean_sequence s) = clean_sequence s"
proof -
  have "clean_sequence (clean_sequence s)
      = filter (\<lambda>base. base \<in> valid_bases) (clean_sequence s)"
    unfolding clean_sequence_def [of "clean_sequence s"] upper_clean_sequence ..
  also have "\<dots> = clean_sequence s"
    by (simp add: clean_sequence_def)
  finally show ?thesis .
qed


subsection \<open>The loop as a map over the records\<close>

lemma fold_process_step:
  "fold process_step rs (vr, ic) =
     (vr @ concat (map spec_outcome rs),
      ic + length (filter (\<lambda>r. \<not> validate_sequence (seq r)) rs))"
  by (induction rs arbitrary: vr ic) (simp_all add: spec_outcome_def Let_def)

lemma process_fasta_eq:
  "process_fasta rs =
     \<lparr>valid_records = concat (map spec_outcome rs),
      valid_reported = length (concat (map spec_outcome rs)),
      invalid_count = length (filter (\<lambda>r. \<not> validate_sequence (seq r)) rs)\<rparr>"
  by (simp add: process_fasta_def process_loop_def fold_process_step)

lemma spec_outcome_cases:
  assumes "r \<in> set (spec_outcome r0)"
  shows "(validate_sequence (seq r0) \<and> r = r0) \<or>
         (\<not> validate_sequence (seq r0) \<and> clean_sequence (seq r0) \<noteq> []
          \<and> r = r0\<lparr>seq := clean_sequence (seq r0)\<rparr>)"
  using assms by (simp add: spec_outcome_def split: if_splits)

lemma valid_records_cases:
  assumes "r \<in> set (valid_records (process_fasta records))"
  shows "\<exists>r0 \<in> set records.
           (validate_sequence (seq r0) \<and> r = r0) \<or>
           (\<not> validate_sequence (seq r0) \<and> clean_sequence (seq r0) \<noteq> []
            \<and> r = r0\<lparr>seq := clean_sequence (seq r0)\<rparr>)"
proof -
  from assms obtain r0 where "r0 \<in> set records" "r \<in> set (spec_outcome r0)"
    by (auto simp: process_fasta_eq)
  then show ?thesis
    using spec_outcome_cases by blast
qed

lemma length_outcomes_le: "length (concat (map spec_outcome rs)) \<le> length rs"
  by (induction rs) (simp_all add: spec_outcome_def)

lemma length_le_outcomes_plus_invalid:
  "length rs \<le> length (concat (map spec_outcome rs))
                 + length (filter (\<lambda>r. \<not> validate_sequence (seq r)) rs)"
  by (induction rs) (simp_all add: spec_outcome_def)

lemma length_outcomes_split:
  "length (concat (map spec_outcome rs)) =
     length (filter (\<lambda>r. validate_sequence (seq r)) rs)
     + length (filter (\<lambda>r. \<not> validate_sequence (seq r) \<and> clean_sequence (seq r) \<noteq> []) rs)"
  by (induction rs) (simp_all add: spec_outcome_def)

subsection \<open>The builtins \<^verbatim>\<open>min\<close> and \<^verbatim>\<open>max\<close>\<close>

lemma fold_min_eq:
  "fold (\<lambda>item best. if item < best then item else best) xs (x::'a::linorder)
     = Min (set (x # xs))"
proof -
  have "(\<lambda>item best. if item < best then item else best) = (min :: 'a \<Rightarrow> 'a \<Rightarrow> 'a)"
    by (auto simp: fun_eq_iff min_def)
  then show ?thesis
    by (simp only: Min.set_eq_fold)
qed

lemma fold_max_eq:
  "fold (\<lambda>item best. if item > best then item else best) xs (x::'a::linorder)
     = Max (set (x # xs))"
proof -
  have "(\<lambda>item best. if item > best then item else best) = (max :: 'a \<Rightarrow> 'a \<Rightarrow> 'a)"
    by (auto simp: fun_eq_iff max_def)
  then show ?thesis
    by (simp only: Max.set_eq_fold)
qed

lemma py_min_Min: "xs \<noteq> [] \<Longrightarrow> py_min xs = Inr (Min (set xs))"
  by (cases xs) (simp_all only: py_min.simps fold_min_eq)

lemma py_max_Max: "xs \<noteq> [] \<Longrightarrow> py_max xs = Inr (Max (set xs))"
  by (cases xs) (simp_all only: py_max.simps fold_max_eq)

subsection \<open>The statistics of a non-empty collection\<close>

lemma calculate_statistics_nonempty:
  assumes "rs \<noteq> []"
  shows "calculate_statistics rs =
     Inr \<lparr>total_sequences = length rs,
          total_bases = sum_list (map (\<lambda>r. length (seq r)) rs),
          avg_length = PyTrueDiv (sum_list (map (\<lambda>r. length (seq r)) rs)) (length rs),
          shortest = Min (length_id ` set rs),
          longest = Max (length_id ` set rs)\<rparr>"
  using assms by (simp add: calculate_statistics_def py_truediv_def py_min_Min py_max_Max)

lemma Min_length_id:
  assumes "rs \<noteq> []"
  shows "\<exists>r \<in> set rs. Min (length_id ` set rs) = (length (seq r), rid r)
           \<and> (\<forall>r' \<in> set rs. length (seq r) \<le> length (seq r')
                  \<and> (length (seq r') = length (seq r) \<longrightarrow> rid r \<le> rid r'))"
proof -
  have fin: "finite (length_id ` set rs)" and ne: "length_id ` set rs \<noteq> {}"
    using assms by simp_all
  from Min_in [OF fin ne] obtain r where r: "r \<in> set rs"
    and m: "Min (length_id ` set rs) = length_id r"
    by auto
  have "length (seq r) \<le> length (seq r')
          \<and> (length (seq r') = length (seq r) \<longrightarrow> rid r \<le> rid r')"
    if "r' \<in> set rs" for r'
  proof -
    from that have "length_id r \<le> length_id r'"
      unfolding m [symmetric] by (intro Min_le [OF fin]) simp
    then show ?thesis
      by (auto simp: length_id_def)
  qed
  with r m show ?thesis
    by (auto simp: length_id_def)
qed

lemma Max_length_id:
  assumes "rs \<noteq> []"
  shows "\<exists>r \<in> set rs. Max (length_id ` set rs) = (length (seq r), rid r)
           \<and> (\<forall>r' \<in> set rs. length (seq r') \<le> length (seq r)
                  \<and> (length (seq r') = length (seq r) \<longrightarrow> rid r' \<le> rid r))"
proof -
  have fin: "finite (length_id ` set rs)" and ne: "length_id ` set rs \<noteq> {}"
    using assms by simp_all
  from Max_in [OF fin ne] obtain r where r: "r \<in> set rs"
    and m: "Max (length_id ` set rs) = length_id r"
    by auto
  have "length (seq r') \<le> length (seq r)
          \<and> (length (seq r') = length (seq r) \<longrightarrow> rid r' \<le> rid r)"
    if "r' \<in> set rs" for r'
  proof -
    from that have "length_id r' \<le> length_id r"
      unfolding m [symmetric] by (intro Max_ge [OF fin]) simp
    then show ?thesis
      by (auto simp: length_id_def)
  qed
  with r m show ?thesis
    by (auto simp: length_id_def)
qed

lemma sum_list_lower:
  "(\<And>r. r \<in> set rs \<Longrightarrow> m \<le> f r) \<Longrightarrow> m * length rs \<le> sum_list (map f rs)"
  for f :: "'a \<Rightarrow> nat"
  by (induction rs) (simp_all add: add_mono)

lemma sum_list_upper:
  "(\<And>r. r \<in> set rs \<Longrightarrow> f r \<le> m) \<Longrightarrow> sum_list (map f rs) \<le> m * length rs"
  for f :: "'a \<Rightarrow> nat"
  by (induction rs) (simp_all add: add_mono)

text \<open>
  The average is the quotient of the total by the count, and the total lies between the
  count times the shortest length and the count times the longest length. This is the
  integer content of the bounds on the average; the float itself is not represented.
\<close>

lemma total_bases_between:
  assumes "rs \<noteq> []" and "calculate_statistics rs = Inr st"
  shows "avg_length st = PyTrueDiv (total_bases st) (total_sequences st)
         \<and> fst (shortest st) * total_sequences st \<le> total_bases st
         \<and> total_bases st \<le> fst (longest st) * total_sequences st"
proof -
  from Min_length_id [OF assms(1)] obtain r1 where "r1 \<in> set rs"
    and m1: "Min (length_id ` set rs) = (length (seq r1), rid r1)"
    and a1: "\<forall>r' \<in> set rs. length (seq r1) \<le> length (seq r')
               \<and> (length (seq r') = length (seq r1) \<longrightarrow> rid r1 \<le> rid r')"
    by blast
  from Max_length_id [OF assms(1)] obtain r2 where "r2 \<in> set rs"
    and m2: "Max (length_id ` set rs) = (length (seq r2), rid r2)"
    and a2: "\<forall>r' \<in> set rs. length (seq r') \<le> length (seq r2)
               \<and> (length (seq r') = length (seq r2) \<longrightarrow> rid r' \<le> rid r2)"
    by blast
  have lo: "length (seq r1) * length rs \<le> sum_list (map (\<lambda>r. length (seq r)) rs)"
    by (rule sum_list_lower) (simp add: a1)
  have hi: "sum_list (map (\<lambda>r. length (seq r)) rs) \<le> length (seq r2) * length rs"
    by (rule sum_list_upper) (simp add: a2)
  from assms(2) have st: "st =
     \<lparr>total_sequences = length rs,
      total_bases = sum_list (map (\<lambda>r. length (seq r)) rs),
      avg_length = PyTrueDiv (sum_list (map (\<lambda>r. length (seq r)) rs)) (length rs),
      shortest = Min (length_id ` set rs),
      longest = Max (length_id ` set rs)\<rparr>"
    by (simp add: calculate_statistics_nonempty [OF assms(1)])
  show ?thesis
    using lo hi by (simp add: st m1 m2)
qed

section \<open>The records that survive processing\<close>

text \<open>
  C1, as the code has it. Every record that survives processing has a sequence whose
  characters, once uppercased, are all among A, T, G, C. It is either an input record
  that was valid on first pass, kept as it was read, or a record whose sequence holds
  only the characters A, T, G, C and is not empty.
\<close>

theorem surviving_records_alphabet:
  assumes "r \<in> set (valid_records (process_fasta records))"
  shows "set (upper (seq r)) \<subseteq> {CHR ''A'', CHR ''T'', CHR ''G'', CHR ''C''}
         \<and> ((r \<in> set records \<and> validate_sequence (seq r))
              \<or> (set (seq r) \<subseteq> {CHR ''A'', CHR ''T'', CHR ''G'', CHR ''C''} \<and> seq r \<noteq> []))"
proof -
  from valid_records_cases [OF assms] obtain r0 where r0: "r0 \<in> set records"
    and c: "(validate_sequence (seq r0) \<and> r = r0) \<or>
           (\<not> validate_sequence (seq r0) \<and> clean_sequence (seq r0) \<noteq> []
            \<and> r = r0\<lparr>seq := clean_sequence (seq r0)\<rparr>)"
    by blast
  from c show ?thesis
  proof
    assume "validate_sequence (seq r0) \<and> r = r0"
    with r0 show ?thesis
      by (simp add: validate_sequence_subset valid_bases_eq)
  next
    assume h: "\<not> validate_sequence (seq r0) \<and> clean_sequence (seq r0) \<noteq> []
            \<and> r = r0\<lparr>seq := clean_sequence (seq r0)\<rparr>"
    then have s: "seq r = clean_sequence (seq r0)"
      by simp
    have "set (seq r) \<subseteq> valid_bases"
      unfolding s by (rule clean_sequence_bases)
    moreover have "upper (seq r) = seq r"
      unfolding s by (rule upper_clean_sequence)
    moreover have "seq r \<noteq> []"
      using h s by simp
    ultimately show ?thesis
      by (simp add: valid_bases_eq)
  qed
qed

theorem surviving_records_alphabet_witness:
  "\<lparr>rid = ''s2'', seq = ''ATGC''\<rparr>
     \<in> set (valid_records (process_fasta
          [\<lparr>rid = ''s1'', seq = ''atgc''\<rparr>, \<lparr>rid = ''s2'', seq = ''atXgc''\<rparr>,
           \<lparr>rid = ''s3'', seq = ''XXX''\<rparr>]))
   \<and> set (upper ''ATGC'') \<subseteq> {CHR ''A'', CHR ''T'', CHR ''G'', CHR ''C''}
   \<and> set ''ATGC'' \<subseteq> {CHR ''A'', CHR ''T'', CHR ''G'', CHR ''C''}
   \<and> ''ATGC'' \<noteq> []"
proof -
  let ?rs = "[\<lparr>rid = ''s1'', seq = ''atgc''\<rparr>, \<lparr>rid = ''s2'', seq = ''atXgc''\<rparr>,
              \<lparr>rid = ''s3'', seq = ''XXX''\<rparr>]"
  let ?r = "\<lparr>rid = ''s2'', seq = ''ATGC''\<rparr>"
  have h: "?r \<in> set (valid_records (process_fasta ?rs))"
    by code_simp
  have n: "?r \<notin> set ?rs"
    by simp
  from surviving_records_alphabet [OF h] n
  have "set (upper (seq ?r)) \<subseteq> {CHR ''A'', CHR ''T'', CHR ''G'', CHR ''C''}
      \<and> set (seq ?r) \<subseteq> {CHR ''A'', CHR ''T'', CHR ''G'', CHR ''C''} \<and> seq ?r \<noteq> []"
    by blast
  with h show ?thesis
    by simp
qed

text \<open>
  A record in lowercase is valid on first pass and survives as it was read, with
  characters that are not in the alphabet.
\<close>

theorem lowercase_record_survives:
  "valid_records (process_fasta [\<lparr>rid = ''s1'', seq = ''atgc''\<rparr>])
     = [\<lparr>rid = ''s1'', seq = ''atgc''\<rparr>]
   \<and> \<not> set ''atgc'' \<subseteq> {CHR ''A'', CHR ''T'', CHR ''G'', CHR ''C''}"
  by code_simp

text \<open>
  The emptiness test sits in the cleaning branch only: a record read with an empty
  sequence is valid on first pass and is kept.
\<close>

lemma empty_record_kept:
  "valid_records (process_fasta [\<lparr>rid = ''s1'', seq = ''''\<rparr>]) = [\<lparr>rid = ''s1'', seq = ''''\<rparr>]"
  by code_simp

section \<open>Ties in the shortest and the longest record\<close>

text \<open>
  C2, as the code has it. Among the records tied for the minimum (respectively maximum)
  length, the one reported is fixed by the identifiers and not by the input order: the
  shortest is the least and the longest the greatest pair (length, identifier) of the
  collection, so a collection with the same records in another order reports the same
  two.
\<close>

theorem shortest_longest_order_independent:
  assumes "rs \<noteq> []" and "set rs' = set rs"
  shows "\<exists>st st'. calculate_statistics rs = Inr st \<and> calculate_statistics rs' = Inr st'
     \<and> shortest st = Min (length_id ` set rs) \<and> longest st = Max (length_id ` set rs)
     \<and> shortest st' = shortest st \<and> longest st' = longest st"
proof -
  from assms have "rs' \<noteq> []"
    by auto
  then show ?thesis
    using assms by (simp add: calculate_statistics_nonempty)
qed

theorem shortest_longest_order_independent_witness:
  "[\<lparr>rid = ''b'', seq = ''AT''\<rparr>, \<lparr>rid = ''a'', seq = ''AT''\<rparr>] \<noteq> []
   \<and> set [\<lparr>rid = ''a'', seq = ''AT''\<rparr>, \<lparr>rid = ''b'', seq = ''AT''\<rparr>]
     = set [\<lparr>rid = ''b'', seq = ''AT''\<rparr>, \<lparr>rid = ''a'', seq = ''AT''\<rparr>]
   \<and> map_sum id shortest
        (calculate_statistics [\<lparr>rid = ''b'', seq = ''AT''\<rparr>, \<lparr>rid = ''a'', seq = ''AT''\<rparr>])
      = Inr (2, ''a'')
   \<and> map_sum id shortest
        (calculate_statistics [\<lparr>rid = ''a'', seq = ''AT''\<rparr>, \<lparr>rid = ''b'', seq = ''AT''\<rparr>])
      = Inr (2, ''a'')"
proof -
  let ?rs = "[\<lparr>rid = ''b'', seq = ''AT''\<rparr>, \<lparr>rid = ''a'', seq = ''AT''\<rparr>]"
  let ?rs' = "[\<lparr>rid = ''a'', seq = ''AT''\<rparr>, \<lparr>rid = ''b'', seq = ''AT''\<rparr>]"
  have ne: "?rs \<noteq> []"
    by simp
  have se: "set ?rs' = set ?rs"
    by (simp add: insert_commute)
  have ev: "map_sum id shortest (calculate_statistics ?rs') = Inr (2, ''a'')"
    by code_simp
  from shortest_longest_order_independent [OF ne se]
  obtain st st' where "calculate_statistics ?rs = Inr st"
    "calculate_statistics ?rs' = Inr st'" "shortest st' = shortest st"
    by blast
  with ev have "map_sum id shortest (calculate_statistics ?rs) = Inr (2, ''a'')"
    by simp
  with ne se ev show ?thesis
    by blast
qed

text \<open>
  Three records of length 2 in the input order b, a, c: the shortest reported is a and the
  longest is c, neither of which comes first in the input.
\<close>

theorem first_of_tied_records_not_reported:
  "calculate_statistics
     [\<lparr>rid = ''b'', seq = ''AT''\<rparr>, \<lparr>rid = ''a'', seq = ''AT''\<rparr>, \<lparr>rid = ''c'', seq = ''AT''\<rparr>]
   = Inr \<lparr>total_sequences = 3, total_bases = 6, avg_length = PyTrueDiv 6 3,
          shortest = (2, ''a''), longest = (2, ''c'')\<rparr>
   \<and> length_id \<lparr>rid = ''b'', seq = ''AT''\<rparr> = (2, ''b'')
   \<and> (2, ''b'') \<noteq> (2 :: nat, ''a'') \<and> (2, ''b'') \<noteq> (2 :: nat, ''c'')"
  by code_simp

section \<open>Case of the accepted sequences\<close>

text \<open>
  C3, as the code has it. The validator and the cleaner work on an uppercased copy of the
  sequence, and only the cleaner's result is stored. An accepted record is either an
  input record that was valid on first pass, unchanged and so in the case it was read
  in, or an input record that was invalid on first pass with its sequence replaced by the
  cleaned one, which is uppercase.
\<close>

theorem accepted_records_case:
  assumes "r \<in> set (valid_records (process_fasta records))"
  shows "(r \<in> set records \<and> validate_sequence (seq r))
         \<or> (\<exists>r0 \<in> set records.
               \<not> validate_sequence (seq r0)
               \<and> r = r0\<lparr>seq := clean_sequence (seq r0)\<rparr>
               \<and> upper (seq r) = seq r)"
proof -
  from valid_records_cases [OF assms] obtain r0 where r0: "r0 \<in> set records"
    and c: "(validate_sequence (seq r0) \<and> r = r0) \<or>
           (\<not> validate_sequence (seq r0) \<and> clean_sequence (seq r0) \<noteq> []
            \<and> r = r0\<lparr>seq := clean_sequence (seq r0)\<rparr>)"
    by blast
  from c show ?thesis
  proof
    assume "validate_sequence (seq r0) \<and> r = r0"
    with r0 show ?thesis
      by simp
  next
    assume h: "\<not> validate_sequence (seq r0) \<and> clean_sequence (seq r0) \<noteq> []
            \<and> r = r0\<lparr>seq := clean_sequence (seq r0)\<rparr>"
    then have "upper (seq r) = seq r"
      by (simp add: upper_clean_sequence)
    with h r0 show ?thesis
      by blast
  qed
qed

theorem accepted_records_case_witness:
  "\<lparr>rid = ''s2'', seq = ''ATGC''\<rparr>
     \<in> set (valid_records (process_fasta
          [\<lparr>rid = ''s1'', seq = ''atgc''\<rparr>, \<lparr>rid = ''s2'', seq = ''atXgc''\<rparr>]))
   \<and> upper ''ATGC'' = ''ATGC''
   \<and> \<lparr>rid = ''s1'', seq = ''atgc''\<rparr>
     \<in> set (valid_records (process_fasta
          [\<lparr>rid = ''s1'', seq = ''atgc''\<rparr>, \<lparr>rid = ''s2'', seq = ''atXgc''\<rparr>]))
   \<and> validate_sequence ''atgc''"
proof -
  let ?rs = "[\<lparr>rid = ''s1'', seq = ''atgc''\<rparr>, \<lparr>rid = ''s2'', seq = ''atXgc''\<rparr>]"
  let ?r = "\<lparr>rid = ''s2'', seq = ''ATGC''\<rparr>"
  let ?v = "\<lparr>rid = ''s1'', seq = ''atgc''\<rparr>"
  have h: "?r \<in> set (valid_records (process_fasta ?rs))"
    by code_simp
  have n: "?r \<notin> set ?rs"
    by simp
  from accepted_records_case [OF h] n have u: "upper (seq ?r) = seq ?r"
    by blast
  have k: "?v \<in> set (valid_records (process_fasta ?rs))"
    by code_simp
  have nu: "upper (seq ?v) \<noteq> seq ?v"
    by code_simp
  from accepted_records_case [OF k] nu have "validate_sequence (seq ?v)"
    by blast
  with h u k show ?thesis
    by simp
qed

text \<open>
  A lowercase record that is valid on first pass is accepted in lowercase, next to a
  cleaned record in uppercase.
\<close>

theorem valid_record_keeps_its_case:
  "valid_records
     (process_fasta [\<lparr>rid = ''s1'', seq = ''acgt''\<rparr>, \<lparr>rid = ''s2'', seq = ''aXc''\<rparr>])
     = [\<lparr>rid = ''s1'', seq = ''acgt''\<rparr>, \<lparr>rid = ''s2'', seq = ''AC''\<rparr>]
   \<and> upper ''acgt'' \<noteq> ''acgt''"
  by code_simp

section \<open>The result of the record processor\<close>

text \<open>
  C4, as the code has it. The accepted records are the outcomes of the input records in
  input order: a valid record as it is, an invalid record with its cleaned sequence when
  that is not empty, nothing otherwise. The cleaned count is the number of records
  invalid on first pass, whatever their cleaning gave. The valid count is the number of
  accepted records: those valid on first pass and those whose cleaning is not empty.
  The one record XXX gives no accepted record and the counts 0 and 1, and no record gives
  no accepted record and the counts 0 and 0.
\<close>

theorem process_fasta_result:
  "process_fasta records =
     \<lparr>valid_records = concat (map spec_outcome records),
      valid_reported = length (filter (\<lambda>r. validate_sequence (seq r)) records)
        + length (filter (\<lambda>r. \<not> validate_sequence (seq r) \<and> clean_sequence (seq r) \<noteq> [])
            records),
      invalid_count = length (filter (\<lambda>r. \<not> validate_sequence (seq r)) records)\<rparr>
   \<and> process_fasta [\<lparr>rid = ''s1'', seq = ''XXX''\<rparr>]
       = \<lparr>valid_records = [], valid_reported = 0, invalid_count = 1\<rparr>
   \<and> process_fasta [] = \<lparr>valid_records = [], valid_reported = 0, invalid_count = 0\<rparr>"
proof (intro conjI)
  show "process_fasta records =
     \<lparr>valid_records = concat (map spec_outcome records),
      valid_reported = length (filter (\<lambda>r. validate_sequence (seq r)) records)
        + length (filter (\<lambda>r. \<not> validate_sequence (seq r) \<and> clean_sequence (seq r) \<noteq> [])
            records),
      invalid_count = length (filter (\<lambda>r. \<not> validate_sequence (seq r)) records)\<rparr>"
    by (simp only: process_fasta_eq length_outcomes_split)
  show "process_fasta [\<lparr>rid = ''s1'', seq = ''XXX''\<rparr>]
       = \<lparr>valid_records = [], valid_reported = 0, invalid_count = 1\<rparr>"
    by code_simp
  show "process_fasta [] = \<lparr>valid_records = [], valid_reported = 0, invalid_count = 0\<rparr>"
    by (simp add: process_fasta_def process_loop_def)
qed

text \<open>
  One record that needs cleaning and survives it: it is counted as valid and as invalid,
  while no record is valid on first pass.
\<close>

theorem cleaned_record_counted_valid:
  "process_fasta [\<lparr>rid = ''s1'', seq = ''ATXGC''\<rparr>]
     = \<lparr>valid_records = [\<lparr>rid = ''s1'', seq = ''ATGC''\<rparr>],
        valid_reported = 1, invalid_count = 1\<rparr>
   \<and> length (filter (\<lambda>r. validate_sequence (seq r)) [\<lparr>rid = ''s1'', seq = ''ATXGC''\<rparr>]) = 0"
  by code_simp

section \<open>The statistics\<close>

text \<open>
  C5. For a collection that is not empty the statistics are computed, the shortest record
  reported has the minimum length and, among the records of that length, the smallest
  identifier, and the longest record reported has the maximum length and, among the
  records of that length, the largest identifier.
\<close>

theorem tie_break_asymmetric:
  assumes "rs \<noteq> []"
  shows "\<exists>st. calculate_statistics rs = Inr st
     \<and> (\<exists>r \<in> set rs. shortest st = (length (seq r), rid r)
           \<and> (\<forall>r' \<in> set rs. length (seq r) \<le> length (seq r')
                  \<and> (length (seq r') = length (seq r) \<longrightarrow> rid r \<le> rid r')))
     \<and> (\<exists>r \<in> set rs. longest st = (length (seq r), rid r)
           \<and> (\<forall>r' \<in> set rs. length (seq r') \<le> length (seq r)
                  \<and> (length (seq r') = length (seq r) \<longrightarrow> rid r' \<le> rid r)))"
  using Min_length_id [OF assms] Max_length_id [OF assms]
  by (simp add: calculate_statistics_nonempty [OF assms])

theorem tie_break_asymmetric_witness:
  "[\<lparr>rid = ''b'', seq = ''AT''\<rparr>, \<lparr>rid = ''a'', seq = ''AT''\<rparr>] \<noteq> []
   \<and> map_sum id shortest
        (calculate_statistics [\<lparr>rid = ''b'', seq = ''AT''\<rparr>, \<lparr>rid = ''a'', seq = ''AT''\<rparr>])
      = Inr (2, ''a'')
   \<and> map_sum id longest
        (calculate_statistics [\<lparr>rid = ''b'', seq = ''AT''\<rparr>, \<lparr>rid = ''a'', seq = ''AT''\<rparr>])
      = Inr (2, ''b'')"
proof -
  let ?rs = "[\<lparr>rid = ''b'', seq = ''AT''\<rparr>, \<lparr>rid = ''a'', seq = ''AT''\<rparr>]"
  have ne: "?rs \<noteq> []"
    by simp
  from tie_break_asymmetric [OF ne]
  obtain st r1 r2 where st: "calculate_statistics ?rs = Inr st"
    and r1: "r1 \<in> set ?rs" "shortest st = (length (seq r1), rid r1)"
      "\<forall>r' \<in> set ?rs. length (seq r1) \<le> length (seq r')
          \<and> (length (seq r') = length (seq r1) \<longrightarrow> rid r1 \<le> rid r')"
    and r2: "r2 \<in> set ?rs" "longest st = (length (seq r2), rid r2)"
      "\<forall>r' \<in> set ?rs. length (seq r') \<le> length (seq r2)
          \<and> (length (seq r') = length (seq r2) \<longrightarrow> rid r' \<le> rid r2)"
    by blast
  from r1 have "shortest st = (2, ''a'')"
    by auto
  moreover from r2 have "longest st = (2, ''b'')"
    by auto
  ultimately show ?thesis
    using st by simp
qed

text \<open>
  C6. For the empty collection the statistics are computed without an error: no
  sequences, no bases, the average 0, and the pair of length 0 and the empty identifier
  for both the shortest and the longest record.
\<close>

theorem calculate_statistics_empty:
  "calculate_statistics [] =
     Inr \<lparr>total_sequences = 0, total_bases = 0, avg_length = PyInt 0,
          shortest = (0, ''''), longest = (0, '''')\<rparr>"
  by (simp add: calculate_statistics_def)

section \<open>The validator and the cleaner\<close>

text \<open>
  C7. The validator answers true exactly when every character of the uppercased sequence
  is one of A, T, G, C. The empty sequence is valid, and so is the lowercase \<^verbatim>\<open>atgc\<close>.
\<close>

theorem validate_sequence_iff:
  "(validate_sequence s \<longleftrightarrow>
      (\<forall>c \<in> set (upper s). c \<in> {CHR ''A'', CHR ''T'', CHR ''G'', CHR ''C''}))
   \<and> validate_sequence []
   \<and> validate_sequence ''atgc''"
proof (intro conjI)
  show "validate_sequence s \<longleftrightarrow>
      (\<forall>c \<in> set (upper s). c \<in> {CHR ''A'', CHR ''T'', CHR ''G'', CHR ''C''})"
    unfolding validate_sequence_subset valid_bases_eq by (rule subset_eq)
  show "validate_sequence []"
    by (simp add: validate_sequence_def upper_def)
  show "validate_sequence ''atgc''"
    by code_simp
qed

theorem validate_sequence_iff_witness:
  "upper ''aTgc'' = ''ATGC'' \<and> validate_sequence ''aTgc''
   \<and> upper ''aTNc'' = ''ATNC'' \<and> \<not> validate_sequence ''aTNc''"
proof -
  have u1: "upper ''aTgc'' = ''ATGC''"
    by code_simp
  have u2: "upper ''aTNc'' = ''ATNC''"
    by code_simp
  have "validate_sequence ''aTgc''"
    using validate_sequence_iff [of "''aTgc''"] unfolding u1 by simp
  moreover have "\<not> validate_sequence ''aTNc''"
    using validate_sequence_iff [of "''aTNc''"] unfolding u2 by simp
  ultimately show ?thesis
    using u1 u2 by simp
qed

text \<open>
  C8. Cleaning twice is cleaning once, a cleaned sequence passes the validator, and the
  empty sequence cleans to the empty sequence.
\<close>

theorem clean_sequence_idempotent_valid:
  "clean_sequence (clean_sequence s) = clean_sequence s
   \<and> validate_sequence (clean_sequence s)
   \<and> clean_sequence [] = []"
  by (simp add: clean_sequence_idem validate_clean_sequence)
     (simp add: clean_sequence_def upper_def)


section \<open>Counts of the record processor\<close>

text \<open>
  C10. The accepted records are at most as many as the input records, and the records
  dropped, the input count minus the accepted count, are at most as many as the records
  that were invalid on first pass.
\<close>

theorem accepted_and_dropped_bounds:
  "length (valid_records (process_fasta records)) \<le> length records
   \<and> length records - length (valid_records (process_fasta records))
       \<le> invalid_count (process_fasta records)"
  using length_outcomes_le [of records] length_le_outcomes_plus_invalid [of records]
  by (simp add: process_fasta_eq)

end
